theory Spec2Isabelle
  imports Main
begin

section \<open>A ring-buffer queue (queue.go)\<close>

text \<open>
  The Go package implements a FIFO queue over a slice used as a circular buffer, in a
  bounded and an unbounded (doubling) variant. The embedding follows queue.go function by
  function. A slice is a list (every slice the queue stores comes from \<^verbatim>\<open>make\<close> with
  one size argument and is never resliced in place, so its length and its capacity agree),
  Go's \<^verbatim>\<open>int\<close> is \<^typ>\<open>int\<close>, the pointer receiver is explicit state passing, and a
  run-time panic is the left summand of the result. \<^verbatim>\<open>make\<close> panics on a negative
  length and on a length beyond what the runtime allocates; that bound is a parameter of
  the constructors. Two idealisations are made. Integers do not wrap: the sums the code
  forms, \<^verbatim>\<open>cap * 2\<close>, \<^verbatim>\<open>front + length\<close> and \<^verbatim>\<open>front + 1\<close>, are at most twice a
  slice length, so on a 64-bit \<^verbatim>\<open>int\<close> they could only wrap for a slice of at least
  \<open>2\<^sup>6\<^sup>2\<close> elements. And the allocation in \<^verbatim>\<open>expand\<close> succeeds: the
  specification of \<^verbatim>\<open>Push\<close> assumes that growth always succeeds.
\<close>

subsection \<open>Errors and panics\<close>

datatype error = ErrQueueEmpty | ErrQueueFull

datatype panic =
    MakesliceLenOutOfRange
  | IndexOutOfRange
  | SliceBoundsOutOfRange
  | IntegerDivideByZero

subsection \<open>The Go primitives the package uses\<close>

definition go_cap :: "'a list \<Rightarrow> int" where
  "go_cap s = int (length s)"

text \<open>
  \<^verbatim>\<open>make([]Element, n)\<close>: \<open>n\<close> zero values. The runtime panics with
  \<^verbatim>\<open>makeslice: len out of range\<close> when \<open>n\<close> is negative and when \<open>n\<close> elements are
  more than it can allocate. The largest length it allocates depends on the size of the
  element type and on the platform, and is the parameter \<open>maxLen\<close>.
\<close>

definition go_make :: "int \<Rightarrow> 'a \<Rightarrow> int \<Rightarrow> panic + 'a list" where
  "go_make maxLen z n =
     (if n < 0 \<or> maxLen < n then Inl MakesliceLenOutOfRange
      else Inr (replicate (nat n) z))"

text \<open>
  For \<^verbatim>\<open>[]int\<close> on a 64-bit platform where one allocation is at most \<open>2\<^sup>4\<^sup>8\<close> bytes,
  the bound is \<open>2\<^sup>4\<^sup>5\<close> elements of 8 bytes.
\<close>

definition maxLen_int :: int where
  "maxLen_int = 2 ^ 45"

text \<open>\<^verbatim>\<open>s[lo:hi]\<close>: panics unless \<open>0 \<le> lo \<le> hi \<le> cap s\<close>.\<close>

definition go_slice :: "'a list \<Rightarrow> int \<Rightarrow> int \<Rightarrow> panic + 'a list" where
  "go_slice s lo hi =
     (if 0 \<le> lo \<and> lo \<le> hi \<and> hi \<le> go_cap s
      then Inr (take (nat (hi - lo)) (drop (nat lo) s))
      else Inl SliceBoundsOutOfRange)"

text \<open>
  \<^verbatim>\<open>copy(dst, src)\<close> overwrites the first \<open>min (len dst) (len src)\<close> elements of
  \<open>dst\<close> and returns that count; the model returns the destination as written, too.
\<close>

definition go_copy :: "'a list \<Rightarrow> 'a list \<Rightarrow> 'a list \<times> int" where
  "go_copy dst src =
     (let n = min (length dst) (length src) in (take n src @ drop n dst, int n))"

text \<open>\<^verbatim>\<open>s[i]\<close> and \<^verbatim>\<open>s[i] = v\<close>: an index outside \<open>0 \<le> i < len s\<close> panics.\<close>

definition go_index :: "'a list \<Rightarrow> int \<Rightarrow> panic + 'a" where
  "go_index s i =
     (if 0 \<le> i \<and> i < int (length s) then Inr (s ! nat i) else Inl IndexOutOfRange)"

definition go_store :: "'a list \<Rightarrow> int \<Rightarrow> 'a \<Rightarrow> panic + 'a list" where
  "go_store s i v =
     (if 0 \<le> i \<and> i < int (length s) then Inr (s[nat i := v]) else Inl IndexOutOfRange)"

text \<open>\<^verbatim>\<open>a % b\<close>: the remainder of the truncated division; a zero divisor panics.\<close>

definition go_rem :: "int \<Rightarrow> int \<Rightarrow> panic + int" where
  "go_rem a b =
     (if b = 0 then Inl IntegerDivideByZero else Inr (sgn a * (\<bar>a\<bar> mod \<bar>b\<bar>)))"

subsection \<open>The queue\<close>

text \<open>The struct \<^verbatim>\<open>ringBufferQueue\<close>; its field \<^verbatim>\<open>length\<close> is \<open>length_q\<close> here.\<close>

record 'a ringBufferQueue =
  items :: "'a list"
  front :: int
  length_q :: int
  bounded :: bool

definition defaultRingBufferQueueCapacity :: int where
  "defaultRingBufferQueueCapacity = 2"

text \<open>
  The constructors take the allocation bound \<open>maxLen\<close> and the element type's zero value
  \<open>z\<close> as arguments; the operations that allocate or declare a variable of the element
  type take \<open>z\<close>.
\<close>

definition newBoundedRingBufferQueue :: "int \<Rightarrow> 'a \<Rightarrow> int \<Rightarrow> panic + 'a ringBufferQueue" where
  "newBoundedRingBufferQueue maxLen z capacity =
     (let capacity = (if capacity = 0 then defaultRingBufferQueueCapacity else capacity) in
      case go_make maxLen z capacity of
        Inl p \<Rightarrow> Inl p
      | Inr s \<Rightarrow> Inr \<lparr>items = s, front = 0, length_q = 0, bounded = True\<rparr>)"

definition newUnboundedRingBufferQueue :: "int \<Rightarrow> 'a \<Rightarrow> int \<Rightarrow> panic + 'a ringBufferQueue" where
  "newUnboundedRingBufferQueue maxLen z initialCapacity =
     (let initialCapacity =
            (if initialCapacity = 0 then defaultRingBufferQueueCapacity else initialCapacity) in
      case go_make maxLen z initialCapacity of
        Inl p \<Rightarrow> Inl p
      | Inr s \<Rightarrow> Inr \<lparr>items = s, front = 0, length_q = 0, bounded = False\<rparr>)"

definition NewBoundedQueue :: "int \<Rightarrow> 'a \<Rightarrow> int \<Rightarrow> panic + 'a ringBufferQueue" where
  "NewBoundedQueue maxLen z capacity = newBoundedRingBufferQueue maxLen z capacity"

definition NewUnboundedQueue :: "int \<Rightarrow> 'a \<Rightarrow> int \<Rightarrow> panic + 'a ringBufferQueue" where
  "NewUnboundedQueue maxLen z initialCapacity =
     newUnboundedRingBufferQueue maxLen z initialCapacity"

text \<open>
  \<^verbatim>\<open>expand\<close>: the second \<^verbatim>\<open>copy\<close> writes through the subslice
  \<^verbatim>\<open>newItems[copyCount:]\<close>, so the new store is the part before \<open>copyCount\<close>
  followed by the subslice as written. Growth is assumed to succeed, so its
  \<^verbatim>\<open>make\<close> is given a bound that admits the doubled capacity.
\<close>

definition expand :: "'a \<Rightarrow> 'a ringBufferQueue \<Rightarrow> panic + 'a ringBufferQueue" where
  "expand z q =
     (if length_q q < go_cap (items q) then Inr q
      else
        let newCapacity = go_cap (items q) * 2 in
        case go_make newCapacity z newCapacity of
          Inl p \<Rightarrow> Inl p
        | Inr newItems \<Rightarrow>
            (case go_slice (items q) (front q) (length_q q) of
               Inl p \<Rightarrow> Inl p
             | Inr tail_part \<Rightarrow>
                 let (newItems1, copyCount) = go_copy newItems tail_part in
                 if front q > 0 then
                   (case go_slice newItems1 copyCount (go_cap newItems1) of
                      Inl p \<Rightarrow> Inl p
                    | Inr dst \<Rightarrow>
                        (case go_slice (items q) 0 (front q) of
                           Inl p \<Rightarrow> Inl p
                         | Inr head_part \<Rightarrow>
                             let (dst1, n) = go_copy dst head_part in
                             Inr (q\<lparr>items := take (nat copyCount) newItems1 @ dst1,
                                    front := 0\<rparr>)))
                 else Inr (q\<lparr>items := newItems1, front := 0\<rparr>)))"

definition Push :: "'a \<Rightarrow> 'a \<Rightarrow> 'a ringBufferQueue \<Rightarrow> panic + (error option \<times> 'a ringBufferQueue)" where
  "Push z item q =
     (if length_q q = go_cap (items q) \<and> bounded q then Inr (Some ErrQueueFull, q)
      else
        case (if length_q q = go_cap (items q) then expand z q else Inr q) of
          Inl p \<Rightarrow> Inl p
        | Inr q1 \<Rightarrow>
            (case go_rem (front q1 + length_q q1) (go_cap (items q1)) of
               Inl p \<Rightarrow> Inl p
             | Inr back \<Rightarrow>
                 (case go_store (items q1) back item of
                    Inl p \<Rightarrow> Inl p
                  | Inr s \<Rightarrow> Inr (None, q1\<lparr>items := s, length_q := length_q q1 + 1\<rparr>))))"

definition Peek :: "'a \<Rightarrow> 'a ringBufferQueue \<Rightarrow> panic + (('a \<times> error option) \<times> 'a ringBufferQueue)" where
  "Peek z q =
     (let item = z in
      if length_q q = 0 then Inr ((item, Some ErrQueueEmpty), q)
      else
        case go_index (items q) (front q) of
          Inl p \<Rightarrow> Inl p
        | Inr v \<Rightarrow> Inr ((v, None), q))"

definition Pop :: "'a \<Rightarrow> 'a ringBufferQueue \<Rightarrow> panic + (('a \<times> error option) \<times> 'a ringBufferQueue)" where
  "Pop z q =
     (case Peek z q of
        Inl p \<Rightarrow> Inl p
      | Inr ((item, err), q1) \<Rightarrow>
          if err \<noteq> None then Inr ((item, err), q1)
          else
            (case go_rem (front q1 + 1) (go_cap (items q1)) of
               Inl p \<Rightarrow> Inl p
             | Inr f \<Rightarrow> Inr ((item, None), q1\<lparr>front := f, length_q := length_q q1 - 1\<rparr>)))"

definition Length :: "'a ringBufferQueue \<Rightarrow> int" where
  "Length q = length_q q"

subsection \<open>Running a sequence of operations\<close>

datatype 'a op = OpPush 'a | OpPop | OpPeek

datatype 'a outcome =
    Pushed "error option"
  | Popped 'a "error option"
  | Peeked 'a "error option"

definition apply_op :: "'a \<Rightarrow> 'a op \<Rightarrow> 'a ringBufferQueue \<Rightarrow> panic + ('a outcome \<times> 'a ringBufferQueue)" where
  "apply_op z c q =
     (case c of
        OpPush x \<Rightarrow>
          (case Push z x q of Inl p \<Rightarrow> Inl p | Inr (e, q1) \<Rightarrow> Inr (Pushed e, q1))
      | OpPop \<Rightarrow>
          (case Pop z q of Inl p \<Rightarrow> Inl p | Inr ((v, e), q1) \<Rightarrow> Inr (Popped v e, q1))
      | OpPeek \<Rightarrow>
          (case Peek z q of Inl p \<Rightarrow> Inl p | Inr ((v, e), q1) \<Rightarrow> Inr (Peeked v e, q1)))"

text \<open>A panic ends the run, as it ends the program.\<close>

fun exec :: "'a \<Rightarrow> 'a op list \<Rightarrow> 'a ringBufferQueue \<Rightarrow> panic + ('a outcome list \<times> 'a ringBufferQueue)" where
  "exec z [] q = Inr ([], q)"
| "exec z (c # cs) q =
     (case apply_op z c q of
        Inl p \<Rightarrow> Inl p
      | Inr (r, q1) \<Rightarrow>
          (case exec z cs q1 of
             Inl p \<Rightarrow> Inl p
           | Inr (rs, q2) \<Rightarrow> Inr (r # rs, q2)))"

text \<open>
  The states a caller can reach: a constructor that returned (under whatever allocation
  bound), then any operations.
\<close>

inductive reachable :: "'a \<Rightarrow> 'a ringBufferQueue \<Rightarrow> bool" for z :: 'a where
  from_bounded:
    "NewBoundedQueue maxLen z c = Inr q0 \<Longrightarrow> exec z cs q0 = Inr (rs, q) \<Longrightarrow>
       reachable z q"
| from_unbounded:
    "NewUnboundedQueue maxLen z c = Inr q0 \<Longrightarrow> exec z cs q0 = Inr (rs, q) \<Longrightarrow>
       reachable z q"

text \<open>The numbers of pushes and of pops that returned no error.\<close>

definition pushes_ok :: "'a outcome list \<Rightarrow> nat" where
  "pushes_ok rs = length (filter (\<lambda>r. case r of Pushed None \<Rightarrow> True | _ \<Rightarrow> False) rs)"

definition pops_ok :: "'a outcome list \<Rightarrow> nat" where
  "pops_ok rs = length (filter (\<lambda>r. case r of Popped v None \<Rightarrow> True | _ \<Rightarrow> False) rs)"

subsection \<open>The representation invariant and the abstract contents\<close>

definition queue_inv :: "'a ringBufferQueue \<Rightarrow> bool" where
  "queue_inv q \<longleftrightarrow>
     0 < go_cap (items q) \<and> 0 \<le> front q \<and> front q < go_cap (items q) \<and>
     0 \<le> length_q q \<and> length_q q \<le> go_cap (items q)"

text \<open>The live elements, oldest first: slots \<open>front, front + 1, \<dots>\<close> modulo the capacity.\<close>

definition live :: "'a ringBufferQueue \<Rightarrow> 'a list" where
  "live q =
     map (\<lambda>i. items q ! ((nat (front q) + i) mod length (items q))) [0 ..< nat (length_q q)]"

subsection \<open>Example states\<close>

text \<open>
  Concrete queues of integers, used to run the statements below on actual inputs: a fresh
  unbounded queue of capacity 2, the same after \<^verbatim>\<open>Push(1), Pop()\<close> (empty, with the
  front at index 1), after \<^verbatim>\<open>Push(1), Push(2), Pop()\<close>, after one
  more \<^verbatim>\<open>Push(3)\<close> (full, with the front at index 1), after the \<^verbatim>\<open>Push(4)\<close> that
  makes it grow, and bounded counterparts.
\<close>

definition ex_fresh :: "int ringBufferQueue" where
  "ex_fresh = \<lparr>items = [0, 0], front = 0, length_q = 0, bounded = False\<rparr>"

definition ex_wrapped_empty :: "int ringBufferQueue" where
  "ex_wrapped_empty = \<lparr>items = [1, 0], front = 1, length_q = 0, bounded = False\<rparr>"

definition ex_wrapped :: "int ringBufferQueue" where
  "ex_wrapped = \<lparr>items = [1, 2], front = 1, length_q = 1, bounded = False\<rparr>"

definition ex_full :: "int ringBufferQueue" where
  "ex_full = \<lparr>items = [3, 2], front = 1, length_q = 2, bounded = False\<rparr>"

definition ex_grown :: "int ringBufferQueue" where
  "ex_grown = \<lparr>items = [2, 3, 4, 0], front = 0, length_q = 3, bounded = False\<rparr>"

definition ex_bounded_fresh :: "int ringBufferQueue" where
  "ex_bounded_fresh = \<lparr>items = [0, 0], front = 0, length_q = 0, bounded = True\<rparr>"

definition ex_bounded_full :: "int ringBufferQueue" where
  "ex_bounded_full = \<lparr>items = [3, 2], front = 1, length_q = 2, bounded = True\<rparr>"

definition ex_bounded_popped :: "int ringBufferQueue" where
  "ex_bounded_popped = \<lparr>items = [3, 2], front = 0, length_q = 1, bounded = True\<rparr>"

section \<open>Properties of the primitives and of each operation\<close>

lemma go_rem_nonneg:
  "0 \<le> a \<Longrightarrow> 0 < b \<Longrightarrow> go_rem a b = Inr (a mod b)"
  by (cases "a = 0") (simp_all add: go_rem_def)

lemma newBounded_ok:
  "0 \<le> c \<Longrightarrow> (if c = 0 then 2 else c) \<le> maxLen \<Longrightarrow>
     newBoundedRingBufferQueue maxLen z c =
       Inr \<lparr>items = replicate (nat (if c = 0 then 2 else c)) z, front = 0, length_q = 0,
            bounded = True\<rparr>"
  by (auto simp add: newBoundedRingBufferQueue_def defaultRingBufferQueueCapacity_def
      go_make_def split: if_splits)

lemma newUnbounded_ok:
  "0 \<le> c \<Longrightarrow> (if c = 0 then 2 else c) \<le> maxLen \<Longrightarrow>
     newUnboundedRingBufferQueue maxLen z c =
       Inr \<lparr>items = replicate (nat (if c = 0 then 2 else c)) z, front = 0, length_q = 0,
            bounded = False\<rparr>"
  by (auto simp add: newUnboundedRingBufferQueue_def defaultRingBufferQueueCapacity_def
      go_make_def split: if_splits)

lemma newBounded_panic:
  "c < 0 \<or> maxLen < (if c = 0 then 2 else c) \<Longrightarrow>
     newBoundedRingBufferQueue maxLen z c = Inl MakesliceLenOutOfRange"
  by (auto simp add: newBoundedRingBufferQueue_def defaultRingBufferQueueCapacity_def
      go_make_def split: if_splits)

lemma newUnbounded_panic:
  "c < 0 \<or> maxLen < (if c = 0 then 2 else c) \<Longrightarrow>
     newUnboundedRingBufferQueue maxLen z c = Inl MakesliceLenOutOfRange"
  by (auto simp add: newUnboundedRingBufferQueue_def defaultRingBufferQueueCapacity_def
      go_make_def split: if_splits)

lemma newBounded_Inr:
  assumes "newBoundedRingBufferQueue maxLen z c = Inr q"
  shows "0 \<le> c \<and> (if c = 0 then 2 else c) \<le> maxLen \<and>
     q = \<lparr>items = replicate (nat (if c = 0 then 2 else c)) z, front = 0, length_q = 0,
          bounded = True\<rparr>"
proof (cases "c < 0 \<or> maxLen < (if c = 0 then 2 else c)")
  case True
  from newBounded_panic[OF True, of z] assms show ?thesis by simp
next
  case False
  then have "0 \<le> c" and "(if c = 0 then 2 else c) \<le> maxLen" by simp_all
  with newBounded_ok[OF this, of z] assms show ?thesis by simp
qed

lemma newUnbounded_Inr:
  assumes "newUnboundedRingBufferQueue maxLen z c = Inr q"
  shows "0 \<le> c \<and> (if c = 0 then 2 else c) \<le> maxLen \<and>
     q = \<lparr>items = replicate (nat (if c = 0 then 2 else c)) z, front = 0, length_q = 0,
          bounded = False\<rparr>"
proof (cases "c < 0 \<or> maxLen < (if c = 0 then 2 else c)")
  case True
  from newUnbounded_panic[OF True, of z] assms show ?thesis by simp
next
  case False
  then have "0 \<le> c" and "(if c = 0 then 2 else c) \<le> maxLen" by simp_all
  with newUnbounded_ok[OF this, of z] assms show ?thesis by simp
qed

lemma expand_full:
  assumes "queue_inv q" and "length_q q = go_cap (items q)"
  shows "expand z q =
     Inr (q\<lparr>items := drop (nat (front q)) (items q) @ take (nat (front q)) (items q)
                      @ replicate (length (items q)) z,
            front := 0\<rparr>)"
proof -
  define s where "s = items q"
  define f where "f = nat (front q)"
  define c where "c = length s"
  from assms have fq: "front q = int f" and f: "f < c" and len: "length_q q = int c"
    by (auto simp add: queue_inv_def go_cap_def s_def f_def c_def)
  have mk: "go_make (go_cap s * 2) z (go_cap s * 2) = Inr (replicate (2 * c) z)"
    by (simp add: go_make_def go_cap_def nat_mult_distrib c_def)
  have s1: "go_slice s (int f) (int c) = Inr (drop f s)"
    using f by (simp add: go_slice_def go_cap_def c_def nat_diff_distrib)
  have cp1: "go_copy (replicate (2 * c) z) (drop f s) =
      (drop f s @ replicate (c + f) z, int (c - f))"
    using f by (simp add: go_copy_def Let_def min_def c_def)
  have s2: "go_slice (drop f s @ replicate (c + f) z) (int (c - f))
                (go_cap (drop f s @ replicate (c + f) z)) = Inr (replicate (c + f) z)"
    using f by (simp add: go_slice_def go_cap_def c_def nat_diff_distrib)
  have s3: "go_slice s 0 (int f) = Inr (take f s)"
    using f by (simp add: go_slice_def go_cap_def c_def)
  have cp2: "go_copy (replicate (c + f) z) (take f s) = (take f s @ replicate c z, int f)"
    using f by (simp add: go_copy_def Let_def min_def c_def)
  have "expand z q = Inr (q\<lparr>items := drop f s @ take f s @ replicate c z, front := 0\<rparr>)"
  proof (cases "f = 0")
    case True
    then show ?thesis
      using mk s1 cp1 len fq by (simp add: expand_def go_cap_def Let_def s_def[symmetric] c_def[symmetric])
  next
    case False
    then show ?thesis
      using mk s1 cp1 s2 s3 cp2 len fq f
      by (simp add: expand_def Let_def go_cap_def s_def[symmetric] c_def[symmetric])
  qed
  then show ?thesis by (simp add: s_def f_def c_def)
qed

lemma push_full:
  "bounded q \<Longrightarrow> length_q q = go_cap (items q) \<Longrightarrow> Push z x q = Inr (Some ErrQueueFull, q)"
  by (simp add: Push_def)

lemma push_room:
  assumes "queue_inv q" and "length_q q < go_cap (items q)"
  shows "Push z x q =
     Inr (None, q\<lparr>items := (items q)[(nat (front q) + nat (length_q q)) mod length (items q) := x],
                  length_q := length_q q + 1\<rparr>)"
proof -
  define c where "c = length (items q)"
  define f where "f = nat (front q)"
  define n where "n = nat (length_q q)"
  from assms have fq: "front q = int f" and nq: "length_q q = int n" and c: "0 < c"
    by (auto simp add: queue_inv_def go_cap_def c_def f_def n_def)
  have rem: "go_rem (int f + int n) (int c) = Inr (int ((f + n) mod c))"
    using c by (simp add: go_rem_nonneg zmod_int)
  have st: "go_store (items q) (int ((f + n) mod c)) x = Inr ((items q)[(f + n) mod c := x])"
    using c by (simp add: go_store_def c_def)
  have "Push z x q = Inr (None, q\<lparr>items := (items q)[(f + n) mod c := x],
                  length_q := length_q q + 1\<rparr>)"
    using assms(2) rem st fq nq by (simp add: Push_def go_cap_def c_def[symmetric])
  then show ?thesis by (simp add: c_def f_def n_def)
qed

lemma push_grow:
  assumes "queue_inv q" and "\<not> bounded q" and "length_q q = go_cap (items q)"
  shows "Push z x q =
     Inr (None, q\<lparr>items := drop (nat (front q)) (items q) @ take (nat (front q)) (items q)
                      @ [x] @ replicate (length (items q) - 1) z,
                  front := 0, length_q := length_q q + 1\<rparr>)"
proof -
  define s where "s = items q"
  define c where "c = length s"
  define f where "f = nat (front q)"
  from assms have f: "f < c" and nq: "length_q q = int c" and c: "0 < c"
    by (auto simp add: queue_inv_def go_cap_def c_def f_def s_def)
  define s' where "s' = drop f s @ take f s @ replicate c z"
  have ex: "expand z q = Inr (q\<lparr>items := s', front := 0\<rparr>)"
    using expand_full[OF assms(1,3)] by (simp add: s'_def s_def c_def f_def)
  have ls': "length s' = 2 * c" using f by (simp add: s'_def c_def)
  have rem: "go_rem (int c) (int (2 * c)) = Inr (int c)"
    using c by (simp add: go_rem_nonneg)
  have st: "go_store s' (int c) x = Inr (s'[c := x])"
    using c ls' by (simp add: go_store_def)
  have upd: "s'[c := x] = drop f s @ take f s @ [x] @ replicate (c - 1) z"
  proof -
    have "s' = (drop f s @ take f s) @ (z # replicate (c - 1) z)"
      using c by (cases c) (simp_all add: s'_def)
    moreover have "length (drop f s @ take f s) = c" using f by (simp add: c_def)
    ultimately have "s'[c := x] =
        ((drop f s @ take f s) @ (z # replicate (c - 1) z))[length (drop f s @ take f s) := x]"
      by simp
    then show ?thesis by (simp only: list_update_length) simp
  qed
  have "Push z x q = Inr (None, q\<lparr>items := s'[c := x], front := 0, length_q := length_q q + 1\<rparr>)"
    using assms(2,3) ex rem st nq ls' by (simp add: Push_def go_cap_def)
  then show ?thesis by (simp add: upd) (simp add: s_def c_def f_def)
qed

lemma length_live: "length (live q) = nat (length_q q)"
  by (simp add: live_def)

lemma live_nth:
  "i < nat (length_q q) \<Longrightarrow> live q ! i = items q ! ((nat (front q) + i) mod length (items q))"
  by (simp add: live_def)

lemma live_push_room:
  assumes "queue_inv q" and "length_q q < go_cap (items q)"
  shows "live (q\<lparr>items := (items q)[(nat (front q) + nat (length_q q)) mod length (items q) := x],
                  length_q := length_q q + 1\<rparr>) = live q @ [x]"
proof -
  define c where "c = length (items q)"
  define f where "f = nat (front q)"
  define n where "n = nat (length_q q)"
  from assms have nq: "length_q q = int n" and c: "0 < c" and n: "n < c" and f: "f < c"
    by (auto simp add: queue_inv_def go_cap_def c_def f_def n_def)
  have neq: "(f + n) mod c \<noteq> (f + i) mod c" if "i < n" for i
    using that n f by (auto simp add: mod_if)
  have "nat (length_q q + 1) = Suc n" using nq by simp
  then show ?thesis
    using c neq unfolding live_def
    by (simp add: c_def[symmetric] f_def[symmetric] n_def[symmetric])
qed

lemma rotate_nth_mod:
  assumes "f < length s" and "i < length s"
  shows "(drop f s @ take f s) ! i = s ! ((f + i) mod length s)"
proof (cases "i < length s - f")
  case True
  then have "f + i < length s" by simp
  then have "(f + i) mod length s = f + i" by simp
  then show ?thesis using assms True by (simp add: nth_append)
next
  case False
  then have "length s \<le> f + i" by arith
  then have "(f + i) mod length s = (f + i - length s) mod length s"
    by (simp add: le_mod_geq)
  also have "\<dots> = f + i - length s" using assms by simp
  finally have "(f + i) mod length s = f + i - length s" .
  moreover have "i - (length s - f) = f + i - length s" using assms False by simp
  ultimately show ?thesis using assms False by (simp add: nth_append)
qed

lemma live_full:
  assumes "queue_inv q" and "length_q q = go_cap (items q)"
  shows "live q = drop (nat (front q)) (items q) @ take (nat (front q)) (items q)"
proof (rule nth_equalityI)
  from assms have f: "nat (front q) < length (items q)"
    and n: "nat (length_q q) = length (items q)"
    by (auto simp add: queue_inv_def go_cap_def)
  show "length (live q) = length (drop (nat (front q)) (items q) @ take (nat (front q)) (items q))"
    using f n by (simp add: length_live)
  fix i assume "i < length (live q)"
  then have i: "i < length (items q)" using n by (simp add: length_live)
  then show "live q ! i = (drop (nat (front q)) (items q) @ take (nat (front q)) (items q)) ! i"
    using f n by (simp add: live_nth rotate_nth_mod)
qed

lemma live_front0:
  assumes "front q = 0" and "nat (length_q q) \<le> length (items q)"
  shows "live q = take (nat (length_q q)) (items q)"
proof (rule nth_equalityI)
  show "length (live q) = length (take (nat (length_q q)) (items q))"
    using assms by (simp add: length_live)
  fix i assume "i < length (live q)"
  then have "i < nat (length_q q)" by (simp add: length_live)
  then show "live q ! i = take (nat (length_q q)) (items q) ! i"
    using assms by (simp add: live_nth)
qed

lemma live_push_grow:
  assumes "queue_inv q" and "length_q q = go_cap (items q)"
  shows "live (q\<lparr>items := drop (nat (front q)) (items q) @ take (nat (front q)) (items q)
                      @ [x] @ replicate (length (items q) - 1) z,
                  front := 0, length_q := length_q q + 1\<rparr>) = live q @ [x]"
proof -
  define s where "s = items q"
  define f where "f = nat (front q)"
  from assms have f: "f < length s" and n: "length_q q = int (length s)"
    by (auto simp add: queue_inv_def go_cap_def s_def f_def)
  let ?q' = "q\<lparr>items := drop f s @ take f s @ [x] @ replicate (length s - 1) z,
                front := 0, length_q := length_q q + 1\<rparr>"
  have n': "nat (length_q ?q') = Suc (length s)" using n by simp
  have "live ?q' = take (nat (length_q ?q')) (items ?q')"
    by (rule live_front0) (use f n' in simp_all)
  also have "\<dots> = (drop f s @ take f s) @ [x]"
    using f unfolding n' by simp
  also have "drop f s @ take f s = live q"
    using live_full[OF assms] by (simp add: s_def f_def)
  finally show ?thesis by (simp add: s_def f_def)
qed

lemma peek_empty: "length_q q = 0 \<Longrightarrow> Peek z q = Inr ((z, Some ErrQueueEmpty), q)"
  by (simp add: Peek_def)

lemma pop_empty: "length_q q = 0 \<Longrightarrow> Pop z q = Inr ((z, Some ErrQueueEmpty), q)"
  by (simp add: Pop_def Peek_def)

lemma peek_nonempty:
  "queue_inv q \<Longrightarrow> length_q q \<noteq> 0 \<Longrightarrow> Peek z q = Inr ((items q ! nat (front q), None), q)"
  by (simp add: Peek_def go_index_def queue_inv_def go_cap_def)

lemma pop_nonempty:
  assumes "queue_inv q" and "length_q q \<noteq> 0"
  shows "Pop z q =
     Inr ((items q ! nat (front q), None),
          q\<lparr>front := int ((nat (front q) + 1) mod length (items q)),
            length_q := length_q q - 1\<rparr>)"
proof -
  define f where "f = nat (front q)"
  from assms have fq: "front q = int f" and c: "0 < length (items q)"
    by (auto simp add: queue_inv_def go_cap_def f_def)
  have "go_rem (int f + 1) (int (length (items q))) = Inr (int ((f + 1) mod length (items q)))"
    using c by (simp add: go_rem_nonneg zmod_int add.commute)
  then show ?thesis
    using peek_nonempty[OF assms, of z] fq by (simp add: Pop_def go_cap_def)
qed

lemma live_pop:
  assumes "queue_inv q" and "length_q q \<noteq> 0"
  shows "live q = items q ! nat (front q) #
      live (q\<lparr>front := int ((nat (front q) + 1) mod length (items q)),
             length_q := length_q q - 1\<rparr>)"
proof -
  define c where "c = length (items q)"
  define f where "f = nat (front q)"
  define n where "n = nat (length_q q)"
  from assms have c: "0 < c" and f: "f < c" and n: "0 < n"
    by (auto simp add: queue_inv_def go_cap_def c_def f_def n_def)
  have split: "[0 ..< n] = 0 # map Suc [0 ..< n - 1]"
    using n by (cases n) (simp_all add: upt_conv_Cons map_Suc_upt del: upt_Suc)
  have idx: "Suc (f + i) mod c = (Suc f mod c + i) mod c" for i
    by (metis add_Suc mod_add_left_eq)
  have n1: "nat (length_q q - 1) = n - 1" by (simp add: n_def nat_diff_distrib)
  show ?thesis
    unfolding live_def
    using f
    by (simp add: c_def[symmetric] f_def[symmetric] n_def[symmetric] n1 split idx o_def
        del: upt_Suc)
qed

lemma Push_cases [consumes 1, case_names full room grow]:
  assumes "queue_inv q"
  obtains
    "bounded q" and "length_q q = go_cap (items q)"
      and "Push z x q = Inr (Some ErrQueueFull, q)"
  | "length_q q < go_cap (items q)"
      and "Push z x q =
        Inr (None, q\<lparr>items := (items q)[(nat (front q) + nat (length_q q)) mod length (items q) := x],
                  length_q := length_q q + 1\<rparr>)"
  | "\<not> bounded q" and "length_q q = go_cap (items q)"
      and "Push z x q =
        Inr (None, q\<lparr>items := drop (nat (front q)) (items q) @ take (nat (front q)) (items q)
                      @ [x] @ replicate (length (items q) - 1) z,
                  front := 0, length_q := length_q q + 1\<rparr>)"
proof (cases "length_q q < go_cap (items q)")
  case True
  then show ?thesis using push_room[OF assms True] that(2) by blast
next
  case False
  with assms have eq: "length_q q = go_cap (items q)" by (simp add: queue_inv_def)
  show ?thesis
  proof (cases "bounded q")
    case True
    then show ?thesis using push_full[OF True eq] eq that(1) by blast
  next
    case False
    then show ?thesis using push_grow[OF assms False eq] eq that(3) by blast
  qed
qed

lemma push_inv:
  assumes "queue_inv q" and "Push z x q = Inr (e, q')"
  shows "queue_inv q'"
  using assms(1)
proof (cases rule: Push_cases[where z = z and x = x])
  case full
  with assms show ?thesis by simp
next
  case room
  with assms show ?thesis by (auto simp add: queue_inv_def go_cap_def)
next
  case grow
  with assms show ?thesis by (auto simp add: queue_inv_def go_cap_def)
qed

lemma push_live:
  assumes "queue_inv q" and "Push z x q = Inr (None, q')"
  shows "live q' = live q @ [x] \<and> length_q q' = length_q q + 1"
  using assms(1)
proof (cases rule: Push_cases[where z = z and x = x])
  case full
  with assms show ?thesis by simp
next
  case room
  with assms have q': "q' = q\<lparr>items := (items q)[(nat (front q) + nat (length_q q)) mod length (items q) := x],
                  length_q := length_q q + 1\<rparr>" by simp
  have "live q' = live q @ [x]" unfolding q' by (rule live_push_room[OF assms(1) room(1)])
  moreover have "length_q q' = length_q q + 1" unfolding q' by simp
  ultimately show ?thesis by simp
next
  case grow
  with assms have q': "q' = q\<lparr>items := drop (nat (front q)) (items q) @ take (nat (front q)) (items q)
                      @ [x] @ replicate (length (items q) - 1) z,
                  front := 0, length_q := length_q q + 1\<rparr>" by simp
  have "live q' = live q @ [x]" unfolding q' by (rule live_push_grow[OF assms(1) grow(2)])
  moreover have "length_q q' = length_q q + 1" unfolding q' by simp
  ultimately show ?thesis by simp
qed

lemma push_error:
  assumes "queue_inv q" and "Push z x q = Inr (Some e, q')"
  shows "e = ErrQueueFull \<and> q' = q \<and> bounded q \<and> length_q q = go_cap (items q)"
  using assms(1)
  by (cases rule: Push_cases[where z = z and x = x]) (use assms in simp_all)

lemma push_cap:
  assumes "queue_inv q" and "Push z x q = Inr (e, q')"
  shows "bounded q' = bounded q \<and>
     (go_cap (items q') = go_cap (items q) \<or>
      \<not> bounded q \<and> go_cap (items q') = 2 * go_cap (items q))"
  using assms(1)
  by (cases rule: Push_cases[where z = z and x = x])
    (use assms in \<open>auto simp add: go_cap_def queue_inv_def\<close>)

lemma push_total: "queue_inv q \<Longrightarrow> \<exists>e q'. Push z x q = Inr (e, q')"
  by (cases rule: Push_cases[where z = z and x = x]) auto

lemma push_unbounded_ok:
  "queue_inv q \<Longrightarrow> \<not> bounded q \<Longrightarrow> \<exists>q'. Push z x q = Inr (None, q')"
  by (cases rule: Push_cases[where z = z and x = x]) auto

lemma peek_state: "Peek z q = Inr (r, q') \<Longrightarrow> q' = q"
  by (auto simp add: Peek_def split: if_splits sum.splits)

lemma Pop_cases [consumes 1, case_names empty nonempty]:
  assumes "queue_inv q"
  obtains
    "length_q q = 0" and "Pop z q = Inr ((z, Some ErrQueueEmpty), q)"
  | "0 < length_q q"
      and "Pop z q =
        Inr ((items q ! nat (front q), None),
             q\<lparr>front := int ((nat (front q) + 1) mod length (items q)),
               length_q := length_q q - 1\<rparr>)"
proof (cases "length_q q = 0")
  case True
  then show ?thesis using pop_empty[OF True] that(1) by blast
next
  case False
  moreover from assms False have "0 < length_q q" by (simp add: queue_inv_def)
  ultimately show ?thesis using pop_nonempty[OF assms False] that(2) by blast
qed

lemma pop_inv:
  assumes "queue_inv q" and "Pop z q = Inr (r, q')"
  shows "queue_inv q' \<and> items q' = items q \<and> bounded q' = bounded q"
  using assms(1)
  by (cases rule: Pop_cases[where z = z])
    (use assms in \<open>auto simp add: queue_inv_def go_cap_def\<close>)

lemma pop_total: "queue_inv q \<Longrightarrow> \<exists>v e q'. Pop z q = Inr ((v, e), q')"
  by (cases rule: Pop_cases[where z = z]) auto

lemma peek_total: "queue_inv q \<Longrightarrow> \<exists>v e. Peek z q = Inr ((v, e), q)"
  by (cases "length_q q = 0") (simp_all add: peek_empty peek_nonempty)

lemma pop_live:
  assumes "queue_inv q" and "Pop z q = Inr ((v, None), q')"
  shows "live q = v # live q' \<and> length_q q' = length_q q - 1"
  using assms(1)
proof (cases rule: Pop_cases[where z = z])
  case empty
  with assms show ?thesis by simp
next
  case nonempty
  then have ne: "length_q q \<noteq> 0" by simp
  from nonempty assms have "v = items q ! nat (front q)"
    and q': "q' = q\<lparr>front := int ((nat (front q) + 1) mod length (items q)),
               length_q := length_q q - 1\<rparr>" by simp_all
  then show ?thesis using live_pop[OF assms(1) ne] by simp
qed

lemma pop_front:
  assumes "queue_inv q" and "length_q q \<noteq> 0"
  shows "\<exists>q'. Pop z q = Inr ((hd (live q), None), q')"
  using pop_nonempty[OF assms, of z] live_pop[OF assms] by simp

lemma peek_front:
  assumes "queue_inv q" and "length_q q \<noteq> 0"
  shows "Peek z q = Inr ((hd (live q), None), q)"
  using peek_nonempty[OF assms, of z] live_pop[OF assms] by simp

lemma pushes_ok_Cons: "pushes_ok (r # rs) = pushes_ok [r] + pushes_ok rs"
  by (simp add: pushes_ok_def)

lemma pops_ok_Cons: "pops_ok (r # rs) = pops_ok [r] + pops_ok rs"
  by (simp add: pops_ok_def)

lemma apply_op_total:
  assumes "queue_inv q"
  shows "\<exists>r q'. apply_op z c q = Inr (r, q')"
proof (cases c)
  case (OpPush x)
  from push_total[OF assms, of z x] show ?thesis by (auto simp add: apply_op_def OpPush)
next
  case OpPop
  from pop_total[OF assms, of z] show ?thesis by (auto simp add: apply_op_def OpPop)
next
  case OpPeek
  from peek_total[OF assms, of z] show ?thesis by (auto simp add: apply_op_def OpPeek)
qed

lemma apply_op_inv:
  assumes "queue_inv q" and "apply_op z c q = Inr (r, q')"
  shows "queue_inv q'"
proof (cases c)
  case (OpPush x)
  with assms show ?thesis
    by (auto simp add: apply_op_def split: sum.splits dest: push_inv)
next
  case OpPop
  with assms show ?thesis
    by (auto simp add: apply_op_def split: sum.splits dest: pop_inv)
next
  case OpPeek
  with assms show ?thesis
    by (auto simp add: apply_op_def split: sum.splits dest: peek_state)
qed

lemma apply_op_cap:
  assumes "queue_inv q" and "apply_op z c q = Inr (r, q')"
  shows "bounded q' = bounded q \<and>
     (go_cap (items q') = go_cap (items q) \<or>
      \<not> bounded q \<and> go_cap (items q') = 2 * go_cap (items q))"
proof (cases c)
  case (OpPush x)
  with assms obtain e where "Push z x q = Inr (e, q')"
    by (auto simp add: apply_op_def split: sum.splits)
  from push_cap[OF assms(1) this] show ?thesis .
next
  case OpPop
  with assms obtain v e where "Pop z q = Inr ((v, e), q')"
    by (auto simp add: apply_op_def split: sum.splits)
  from pop_inv[OF assms(1) this] show ?thesis by simp
next
  case OpPeek
  with assms obtain v e where "Peek z q = Inr ((v, e), q')"
    by (auto simp add: apply_op_def split: sum.splits)
  from peek_state[OF this] show ?thesis by simp
qed

lemma apply_op_length:
  assumes "queue_inv q" and "apply_op z c q = Inr (r, q')"
  shows "length_q q' = length_q q + int (pushes_ok [r]) - int (pops_ok [r])"
proof (cases c)
  case (OpPush x)
  with assms obtain e where p: "Push z x q = Inr (e, q')" and r: "r = Pushed e"
    by (auto simp add: apply_op_def split: sum.splits)
  show ?thesis
  proof (cases e)
    case None
    with push_live[OF assms(1), of z x q'] p r show ?thesis
      by (simp add: pushes_ok_def pops_ok_def)
  next
    case (Some e')
    with push_error[OF assms(1), of z x e' q'] p r show ?thesis
      by (simp add: pushes_ok_def pops_ok_def)
  qed
next
  case OpPop
  with assms obtain v e where p: "Pop z q = Inr ((v, e), q')" and r: "r = Popped v e"
    by (auto simp add: apply_op_def split: sum.splits)
  from assms(1) show ?thesis
    by (cases rule: Pop_cases[where z = z])
      (use p r in \<open>auto simp add: pushes_ok_def pops_ok_def\<close>)
next
  case OpPeek
  with assms obtain v e where p: "Peek z q = Inr ((v, e), q')" and r: "r = Peeked v e"
    by (auto simp add: apply_op_def split: sum.splits)
  from peek_state[OF p] r show ?thesis by (simp add: pushes_ok_def pops_ok_def)
qed

lemma exec_total: "queue_inv q \<Longrightarrow> \<exists>rs q'. exec z cs q = Inr (rs, q')"
proof (induction cs arbitrary: q)
  case Nil
  show ?case by simp
next
  case (Cons c cs)
  from apply_op_total[OF Cons.prems, of z c]
  obtain r q1 where a: "apply_op z c q = Inr (r, q1)" by blast
  from apply_op_inv[OF Cons.prems a] have "queue_inv q1" .
  from Cons.IH[OF this] obtain rs q2 where "exec z cs q1 = Inr (rs, q2)" by blast
  with a show ?case by simp
qed

lemma exec_Cons_Inr:
  assumes "exec z (c # cs) q = Inr (rs, q')"
  obtains r q1 rs1 where "apply_op z c q = Inr (r, q1)" and "exec z cs q1 = Inr (rs1, q')"
    and "rs = r # rs1"
  using assms by (auto split: sum.splits)

lemma exec_inv: "queue_inv q \<Longrightarrow> exec z cs q = Inr (rs, q') \<Longrightarrow> queue_inv q'"
proof (induction cs arbitrary: q rs)
  case Nil
  then show ?case by simp
next
  case (Cons c cs)
  from Cons.prems(2) obtain r q1 rs1
    where a: "apply_op z c q = Inr (r, q1)" and e: "exec z cs q1 = Inr (rs1, q')"
    by (rule exec_Cons_Inr)
  from Cons.IH[OF apply_op_inv[OF Cons.prems(1) a] e] show ?case .
qed

lemma exec_length:
  "queue_inv q \<Longrightarrow> exec z cs q = Inr (rs, q') \<Longrightarrow>
     length_q q' = length_q q + int (pushes_ok rs) - int (pops_ok rs)"
proof (induction cs arbitrary: q rs)
  case Nil
  then show ?case by (simp add: pushes_ok_def pops_ok_def)
next
  case (Cons c cs)
  from Cons.prems(2) obtain r q1 rs1
    where a: "apply_op z c q = Inr (r, q1)" and e: "exec z cs q1 = Inr (rs1, q')"
      and rs: "rs = r # rs1"
    by (rule exec_Cons_Inr)
  have "length_q q' = length_q q1 + int (pushes_ok rs1) - int (pops_ok rs1)"
    by (rule Cons.IH[OF apply_op_inv[OF Cons.prems(1) a] e])
  moreover have "length_q q1 = length_q q + int (pushes_ok [r]) - int (pops_ok [r])"
    by (rule apply_op_length[OF Cons.prems(1) a])
  ultimately show ?case
    unfolding rs pushes_ok_Cons[of r rs1] pops_ok_Cons[of r rs1] by simp
qed

lemma exec_cap:
  "queue_inv q \<Longrightarrow> exec z cs q = Inr (rs, q') \<Longrightarrow>
     bounded q' = bounded q \<and>
     (\<exists>k. go_cap (items q') = 2 ^ k * go_cap (items q)) \<and>
     (bounded q \<longrightarrow> go_cap (items q') = go_cap (items q))"
proof (induction cs arbitrary: q rs)
  case Nil
  then have q': "q' = q" by simp
  have "go_cap (items q) = 2 ^ 0 * go_cap (items q)" by simp
  then have "\<exists>k. go_cap (items q) = 2 ^ k * go_cap (items q)" by (rule exI)
  then show ?case unfolding q' by simp
next
  case (Cons c cs)
  from Cons.prems(2) obtain r q1 rs1
    where a: "apply_op z c q = Inr (r, q1)" and e: "exec z cs q1 = Inr (rs1, q')"
    by (rule exec_Cons_Inr)
  from Cons.IH[OF apply_op_inv[OF Cons.prems(1) a] e]
  obtain k where b: "bounded q' = bounded q1"
    and k: "go_cap (items q') = 2 ^ k * go_cap (items q1)"
    and bc: "bounded q1 \<longrightarrow> go_cap (items q') = go_cap (items q1)" by blast
  from apply_op_cap[OF Cons.prems(1) a]
  have b1: "bounded q1 = bounded q"
    and c1: "go_cap (items q1) = go_cap (items q) \<or>
      \<not> bounded q \<and> go_cap (items q1) = 2 * go_cap (items q)" by simp_all
  from c1 k have "go_cap (items q') = 2 ^ k * go_cap (items q) \<or>
      go_cap (items q') = 2 ^ Suc k * go_cap (items q)" by auto
  then have "\<exists>k. go_cap (items q') = 2 ^ k * go_cap (items q)" by blast
  moreover from b b1 have "bounded q' = bounded q" by simp
  moreover from bc b1 c1 have "bounded q \<longrightarrow> go_cap (items q') = go_cap (items q)" by auto
  ultimately show ?case by blast
qed

lemma new_bounded_inv:
  "NewBoundedQueue maxLen z c = Inr q \<Longrightarrow> queue_inv q \<and> length_q q = 0 \<and> bounded q"
  by (auto simp add: NewBoundedQueue_def queue_inv_def go_cap_def dest!: newBounded_Inr
      split: if_splits)

lemma new_unbounded_inv:
  "NewUnboundedQueue maxLen z c = Inr q \<Longrightarrow>
     queue_inv q \<and> length_q q = 0 \<and> \<not> bounded q"
  by (auto simp add: NewUnboundedQueue_def queue_inv_def go_cap_def dest!: newUnbounded_Inr
      split: if_splits)

lemma reachable_inv: "reachable z q \<Longrightarrow> queue_inv q"
  by (induction rule: reachable.induct)
    (blast dest: new_bounded_inv new_unbounded_inv exec_inv)+

subsection \<open>Sequences of operations and the example states\<close>

lemmas eval_defs =
  NewBoundedQueue_def NewUnboundedQueue_def newBoundedRingBufferQueue_def
  newUnboundedRingBufferQueue_def defaultRingBufferQueueCapacity_def
  go_make_def go_cap_def go_slice_def go_copy_def go_index_def go_store_def go_rem_def
  expand_def Push_def Peek_def Pop_def Length_def apply_op_def Let_def

lemma pushes_live:
  "queue_inv q \<Longrightarrow> exec z (map OpPush xs) q = Inr (rs, q') \<Longrightarrow>
     \<forall>r\<in>set rs. r = Pushed None \<Longrightarrow> live q' = live q @ xs \<and> queue_inv q'"
proof (induction xs arbitrary: q rs)
  case Nil
  then show ?case by simp
next
  case (Cons x xs)
  from Cons.prems(2) obtain r q1 rs1
    where a: "apply_op z (OpPush x) q = Inr (r, q1)"
      and e: "exec z (map OpPush xs) q1 = Inr (rs1, q')" and rs: "rs = r # rs1"
    by (auto split: sum.splits)
  from Cons.prems(3) rs have r: "r = Pushed None" and rs1: "\<forall>r\<in>set rs1. r = Pushed None"
    by simp_all
  from a r have p: "Push z x q = Inr (None, q1)"
    by (auto simp add: apply_op_def split: sum.splits)
  from push_live[OF Cons.prems(1) p] have l1: "live q1 = live q @ [x]" by simp
  from push_inv[OF Cons.prems(1) p] have "queue_inv q1" .
  from Cons.IH[OF this e rs1] l1 show ?case by simp
qed

lemma pops_drain:
  "queue_inv q \<Longrightarrow> live q = vs \<Longrightarrow>
     \<exists>q'. exec z (replicate (length vs) OpPop) q = Inr (map (\<lambda>v. Popped v None) vs, q') \<and>
          length_q q' = 0"
proof (induction vs arbitrary: q)
  case Nil
  then have "nat (length_q q) = 0" using length_live[of q] by simp
  with Nil.prems(1) have "length_q q = 0" by (simp add: queue_inv_def)
  then show ?case by simp
next
  case (Cons v vs)
  then have "nat (length_q q) \<noteq> 0" using length_live[of q] by simp
  then have ne: "length_q q \<noteq> 0" by auto
  from pop_front[OF Cons.prems(1) ne, of z] Cons.prems(2)
  obtain q1 where p: "Pop z q = Inr ((v, None), q1)" by auto
  from pop_live[OF Cons.prems(1) p] Cons.prems(2) have l1: "live q1 = vs" by simp
  from pop_inv[OF Cons.prems(1) p] have "queue_inv q1" by simp
  from Cons.IH[OF this l1] obtain q'
    where "exec z (replicate (length vs) OpPop) q1 = Inr (map (\<lambda>v. Popped v None) vs, q')"
      and "length_q q' = 0" by blast
  with p show ?case by (simp add: apply_op_def)
qed

lemma pushes_room:
  "queue_inv q \<Longrightarrow> length_q q + int (length xs) \<le> go_cap (items q) \<Longrightarrow>
     \<exists>q'. exec z (map OpPush xs) q = Inr (replicate (length xs) (Pushed None), q') \<and>
          length_q q' = length_q q + int (length xs)"
proof (induction xs arbitrary: q)
  case Nil
  then show ?case by simp
next
  case (Cons x xs)
  then have room: "length_q q < go_cap (items q)" by simp
  define q1 where "q1 = q\<lparr>items := (items q)[(nat (front q) + nat (length_q q)) mod length (items q) := x],
                  length_q := length_q q + 1\<rparr>"
  from push_room[OF Cons.prems(1) room, of z x] have p: "Push z x q = Inr (None, q1)"
    by (simp add: q1_def)
  from push_inv[OF Cons.prems(1) p] have inv1: "queue_inv q1" .
  have "length_q q1 + int (length xs) \<le> go_cap (items q1)"
    using Cons.prems(2) by (simp add: q1_def go_cap_def)
  from Cons.IH[OF inv1 this] obtain q'
    where "exec z (map OpPush xs) q1 = Inr (replicate (length xs) (Pushed None), q')"
      and "length_q q' = length_q q1 + int (length xs)" by blast
  moreover have "length_q q1 = length_q q + 1" by (simp add: q1_def)
  ultimately show ?case using p by (simp add: apply_op_def)
qed

lemma peeks_same:
  assumes "queue_inv q" and "length_q q \<noteq> 0"
  shows "exec z (replicate n OpPeek) q = Inr (replicate n (Peeked (hd (live q)) None), q)"
  by (induction n) (simp_all add: apply_op_def peek_front[OF assms])

lemma growth_scenario:
  "2 \<le> maxLen \<Longrightarrow>
   \<exists>q0 q1. NewUnboundedQueue maxLen (0::int) 2 = Inr q0 \<and>
      exec 0 [OpPush 1, OpPush 2, OpPop, OpPush 3, OpPush 4, OpPop, OpPop, OpPop] q0 =
        Inr ([Pushed None, Pushed None, Popped 1 None, Pushed None, Pushed None,
              Popped 2 None, Popped 3 None, Popped 4 None], q1)"
  by (simp add: eval_defs eval_nat_numeral)

lemmas ex_defs =
  ex_fresh_def ex_wrapped_def ex_full_def ex_grown_def ex_bounded_fresh_def ex_bounded_full_def
  ex_bounded_popped_def ex_wrapped_empty_def

lemma new_ex_fresh: "NewUnboundedQueue maxLen_int 0 2 = Inr ex_fresh"
  by (simp add: eval_defs ex_defs maxLen_int_def eval_nat_numeral)

lemma new_ex_bounded_fresh: "NewBoundedQueue maxLen_int 0 2 = Inr ex_bounded_fresh"
  by (simp add: eval_defs ex_defs maxLen_int_def eval_nat_numeral)

lemma reach_ex_wrapped: "reachable 0 ex_wrapped"
  by (rule from_unbounded[OF new_ex_fresh, where cs = "[OpPush 1, OpPush 2, OpPop]"])
    (simp add: eval_defs ex_defs)

lemma reach_ex_full: "reachable 0 ex_full"
  by (rule from_unbounded[OF new_ex_fresh, where cs = "[OpPush 1, OpPush 2, OpPop, OpPush 3]"])
    (simp add: eval_defs ex_defs)

lemma reach_ex_bounded_full: "reachable 0 ex_bounded_full"
  by (rule from_bounded[OF new_ex_bounded_fresh,
        where cs = "[OpPush 1, OpPush 2, OpPop, OpPush 3]"])
    (simp add: eval_defs ex_defs)

lemma push_ex_wrapped:
  "exec 0 (map OpPush [3, 4]) ex_wrapped = Inr ([Pushed None, Pushed None], ex_grown)"
  by (simp add: eval_defs ex_defs eval_nat_numeral)

lemma push_ex_full: "exec 0 [OpPush 4] ex_full = Inr ([Pushed None], ex_grown)"
  by (simp add: eval_defs ex_defs eval_nat_numeral)

lemma live_ex_wrapped: "live ex_wrapped = [2]"
  by (simp add: live_def ex_defs)

section \<open>The specification's claims\<close>

text \<open>
  Claim C1 (FIFO order). Take any reachable queue \<open>q\<close>, bounded or unbounded, of any
  capacity, and push the items \<open>xs\<close> with no pop in between, every push succeeding. Then
  popping as many times as the queue holds elements returns, without error and in this
  order, the elements \<open>q\<close> held before (oldest first) followed by \<open>xs\<close>, and leaves the
  queue empty. When \<open>q\<close> was empty, the pops return exactly \<open>xs\<close> in the order pushed.
\<close>

theorem fifo_order:
  assumes "reachable z q" and "exec z (map OpPush xs) q = Inr (rs, q')"
    and "rs = replicate (length xs) (Pushed None)"
  shows "(\<exists>q''. exec z (replicate (length (live q) + length xs) OpPop) q' =
             Inr (map (\<lambda>v. Popped v None) (live q @ xs), q'') \<and> Length q'' = 0) \<and>
         (Length q = 0 \<longrightarrow>
           (\<exists>q''. exec z (replicate (length xs) OpPop) q' =
             Inr (map (\<lambda>v. Popped v None) xs, q'') \<and> Length q'' = 0))"
proof -
  from assms(1) have inv: "queue_inv q" by (rule reachable_inv)
  from assms(3) have ok: "\<forall>r\<in>set rs. r = Pushed None" by simp
  from pushes_live[OF inv assms(2) ok] have l: "live q' = live q @ xs" and inv': "queue_inv q'"
    by simp_all
  from pops_drain[OF inv' l, of z]
  have first: "\<exists>q''. exec z (replicate (length (live q) + length xs) OpPop) q' =
             Inr (map (\<lambda>v. Popped v None) (live q @ xs), q'') \<and> Length q'' = 0"
    by (simp add: Length_def)
  have "live q = []" if "Length q = 0"
    using that length_live[of q] by (simp add: Length_def)
  with first show ?thesis by auto
qed

text \<open>The same statement at concrete queues of integers.\<close>

theorem fifo_order_witness:
  "reachable 0 ex_wrapped \<and>
   exec 0 (map OpPush [3, 4]) ex_wrapped = Inr ([Pushed None, Pushed None], ex_grown) \<and>
   [Pushed None, Pushed None] = replicate (length [3, 4 :: int]) (Pushed None :: int outcome) \<and>
   (\<exists>q''. exec 0 (replicate (length (live ex_wrapped) + length [3, 4 :: int]) OpPop) ex_grown =
            Inr (map (\<lambda>v. Popped v None) (live ex_wrapped @ [3, 4]), q'') \<and> Length q'' = 0) \<and>
   live ex_wrapped @ [3, 4] = [2, 3, 4]"
proof -
  have a: "[Pushed None, Pushed None] =
      replicate (length [3, 4 :: int]) (Pushed None :: int outcome)" by simp
  have l: "live ex_wrapped @ [3, 4] = [2, 3, 4]" by (simp add: live_ex_wrapped)
  from fifo_order[OF reach_ex_wrapped push_ex_wrapped a] reach_ex_wrapped push_ex_wrapped a l
  show ?thesis by blast
qed

text \<open>
  Claim C2 (growth of an unbounded queue). For a reachable unbounded queue whose length
  equals its capacity, \<^verbatim>\<open>expand\<close> builds a store of twice the capacity that holds
  \<^verbatim>\<open>items[front:]\<close> from index 0, then \<^verbatim>\<open>items[:front]\<close> right after it, then zero
  values, and resets \<open>front\<close> to 0; \<^verbatim>\<open>Push\<close> succeeds, writes the item at index
  \<open>length\<close> of that store and increments the length, so that the live elements in FIFO
  order are the first \<open>length\<close> slots of the doubled store. In particular, on an unbounded
  queue of initial capacity 2 (which any allocation bound of at least 2 lets the
  constructor return), \<^verbatim>\<open>Push(1), Push(2), Pop(), Push(3), Push(4)\<close> pops 1 and is
  followed by pops returning 2, 3, 4.
\<close>

theorem unbounded_growth:
  "(reachable z q \<and> \<not> bounded q \<and> length_q q = go_cap (items q) \<longrightarrow>
      expand z q =
        Inr (q\<lparr>items := drop (nat (front q)) (items q) @ take (nat (front q)) (items q)
                         @ replicate (length (items q)) z,
               front := 0\<rparr>) \<and>
      (\<exists>q'. Push z x q = Inr (None, q') \<and>
         go_cap (items q') = 2 * go_cap (items q) \<and>
         items q' = drop (nat (front q)) (items q) @ take (nat (front q)) (items q) @ [x]
                     @ replicate (length (items q) - 1) z \<and>
         front q' = 0 \<and> length_q q' = length_q q + 1 \<and> bounded q' = bounded q \<and>
         take (nat (length_q q)) (items q') = live q \<and>
         take (nat (length_q q')) (items q') = live q @ [x])) \<and>
   (2 \<le> maxLen \<longrightarrow>
     (\<exists>q0 q1. NewUnboundedQueue maxLen (0::int) 2 = Inr q0 \<and>
        exec 0 [OpPush 1, OpPush 2, OpPop, OpPush 3, OpPush 4, OpPop, OpPop, OpPop] q0 =
          Inr ([Pushed None, Pushed None, Popped 1 None, Pushed None, Pushed None,
                Popped 2 None, Popped 3 None, Popped 4 None], q1)))"
proof (intro conjI impI)
  assume a: "reachable z q \<and> \<not> bounded q \<and> length_q q = go_cap (items q)"
  then have "reachable z q" by (rule conjunct1)
  then have inv: "queue_inv q" by (rule reachable_inv)
  from a have nb: "\<not> bounded q" and full: "length_q q = go_cap (items q)" by simp_all
  show "expand z q =
        Inr (q\<lparr>items := drop (nat (front q)) (items q) @ take (nat (front q)) (items q)
                         @ replicate (length (items q)) z,
               front := 0\<rparr>)"
    by (rule expand_full[OF inv full])
  define s where "s = items q"
  define f where "f = nat (front q)"
  define q' where "q' = q\<lparr>items := drop f s @ take f s @ [x] @ replicate (length s - 1) z,
                  front := 0, length_q := length_q q + 1\<rparr>"
  from inv full have f: "f < length s" and n: "length_q q = int (length s)"
    by (auto simp add: queue_inv_def go_cap_def s_def f_def)
  from push_grow[OF inv nb full, of z x] have p: "Push z x q = Inr (None, q')"
    by (simp add: q'_def s_def f_def)
  have lv: "live q = drop f s @ take f s"
    using live_full[OF inv full] by (simp add: s_def f_def)
  have len: "length (live q) = length s" using f unfolding lv by simp
  have its: "items q' = live q @ [x] @ replicate (length s - 1) z"
    unfolding lv by (simp add: q'_def)
  have c: "go_cap (items q') = 2 * go_cap (items q)"
    using f len unfolding its by (simp add: go_cap_def s_def[symmetric])
  have t1: "take (nat (length_q q)) (items q') = live q"
    using len unfolding its n by simp
  have "nat (length_q q') = Suc (length s)" using n by (simp add: q'_def)
  then have t2: "take (nat (length_q q')) (items q') = live q @ [x]"
    using len unfolding its by simp
  have "items q' = drop (nat (front q)) (items q) @ take (nat (front q)) (items q) @ [x]
                 @ replicate (length (items q) - 1) z"
    and "front q' = 0" and "length_q q' = length_q q + 1" and "bounded q' = bounded q"
    by (simp_all add: q'_def s_def f_def)
  with p c t1 t2 show "\<exists>q'. Push z x q = Inr (None, q') \<and>
         go_cap (items q') = 2 * go_cap (items q) \<and>
         items q' = drop (nat (front q)) (items q) @ take (nat (front q)) (items q) @ [x]
                     @ replicate (length (items q) - 1) z \<and>
         front q' = 0 \<and> length_q q' = length_q q + 1 \<and> bounded q' = bounded q \<and>
         take (nat (length_q q)) (items q') = live q \<and>
         take (nat (length_q q')) (items q') = live q @ [x]" by blast
next
  assume "2 \<le> maxLen"
  then show "\<exists>q0 q1. NewUnboundedQueue maxLen (0::int) 2 = Inr q0 \<and>
      exec 0 [OpPush 1, OpPush 2, OpPop, OpPush 3, OpPush 4, OpPop, OpPop, OpPop] q0 =
        Inr ([Pushed None, Pushed None, Popped 1 None, Pushed None, Pushed None,
              Popped 2 None, Popped 3 None, Popped 4 None], q1)"
    by (rule growth_scenario)
qed

text \<open>The same statement at concrete queues of integers.\<close>

theorem unbounded_growth_witness:
  "reachable 0 ex_full \<and> \<not> bounded ex_full \<and> length_q ex_full = go_cap (items ex_full) \<and>
   expand 0 ex_full =
     Inr \<lparr>items = [2, 3, 0, 0], front = 0, length_q = 2, bounded = False\<rparr> \<and>
   (\<exists>q'. Push 0 4 ex_full = Inr (None, q') \<and> items q' = [2, 3, 4, 0] \<and> front q' = 0 \<and>
         length_q q' = 3 \<and> go_cap (items q') = 2 * go_cap (items ex_full)) \<and>
   2 \<le> maxLen_int \<and>
   (\<exists>q0 q1. NewUnboundedQueue maxLen_int (0::int) 2 = Inr q0 \<and>
        exec 0 [OpPush 1, OpPush 2, OpPop, OpPush 3, OpPush 4, OpPop, OpPop, OpPop] q0 =
          Inr ([Pushed None, Pushed None, Popped 1 None, Pushed None, Pushed None,
                Popped 2 None, Popped 3 None, Popped 4 None], q1))"
proof -
  have h: "reachable 0 ex_full \<and> \<not> bounded ex_full \<and>
      length_q ex_full = go_cap (items ex_full)"
    using reach_ex_full by (simp add: ex_full_def go_cap_def)
  have m: "2 \<le> maxLen_int" by (simp add: maxLen_int_def)
  note u = unbounded_growth[of 0 ex_full 4 maxLen_int]
  from u h
  have e: "expand 0 ex_full =
        Inr (ex_full\<lparr>items := drop (nat (front ex_full)) (items ex_full)
                         @ take (nat (front ex_full)) (items ex_full)
                         @ replicate (length (items ex_full)) 0,
               front := 0\<rparr>)"
    and "\<exists>q'. Push 0 4 ex_full = Inr (None, q') \<and>
         go_cap (items q') = 2 * go_cap (items ex_full) \<and>
         items q' = drop (nat (front ex_full)) (items ex_full)
                     @ take (nat (front ex_full)) (items ex_full) @ [4]
                     @ replicate (length (items ex_full) - 1) 0 \<and>
         front q' = 0 \<and> length_q q' = length_q ex_full + 1 \<and> bounded q' = bounded ex_full \<and>
         take (nat (length_q ex_full)) (items q') = live ex_full \<and>
         take (nat (length_q q')) (items q') = live ex_full @ [4]"
    by blast+
  then obtain q' where p: "Push 0 4 ex_full = Inr (None, q')"
    and c: "go_cap (items q') = 2 * go_cap (items ex_full)"
    and i: "items q' = drop (nat (front ex_full)) (items ex_full)
                     @ take (nat (front ex_full)) (items ex_full) @ [4]
                     @ replicate (length (items ex_full) - 1) 0"
    and f: "front q' = 0" and n: "length_q q' = length_q ex_full + 1"
    by blast
  from i have i': "items q' = [2, 3, 4, 0]" by (simp add: ex_full_def)
  from n have n': "length_q q' = 3" by (simp add: ex_full_def)
  from e have e': "expand 0 ex_full =
     Inr \<lparr>items = [2, 3, 0, 0], front = 0, length_q = 2, bounded = False\<rparr>"
    by (simp add: ex_full_def eval_nat_numeral)
  from u m have sc: "\<exists>q0 q1. NewUnboundedQueue maxLen_int (0::int) 2 = Inr q0 \<and>
        exec 0 [OpPush 1, OpPush 2, OpPop, OpPush 3, OpPush 4, OpPop, OpPop, OpPop] q0 =
          Inr ([Pushed None, Pushed None, Popped 1 None, Pushed None, Pushed None,
                Popped 2 None, Popped 3 None, Popped 4 None], q1)"
    by blast
  from h e' p c i' f n' m sc show ?thesis by blast
qed

text \<open>
  Claim C3 (bounded overflow). A bounded queue constructed with capacity \<open>K \<ge> 1\<close> accepts
  the first \<open>K\<close> pushes, whatever the items, and then has length \<open>K\<close>; and in every state
  reached from the constructed queue in which the length is \<open>K\<close>, a push returns
  \<^verbatim>\<open>ErrQueueFull\<close> and the queue it leaves is the queue it found: items, front, length
  and boundedness are all unchanged.
\<close>

theorem bounded_overflow:
  assumes "1 \<le> K" and "NewBoundedQueue maxLen z K = Inr q0"
  shows "(\<forall>xs. length xs = nat K \<longrightarrow>
        (\<exists>q. exec z (map OpPush xs) q0 = Inr (replicate (nat K) (Pushed None), q) \<and>
             Length q = K)) \<and>
     (\<forall>cs rs q x. exec z cs q0 = Inr (rs, q) \<longrightarrow> Length q = K \<longrightarrow>
        Push z x q = Inr (Some ErrQueueFull, q))"
proof -
  from assms have q0: "q0 = \<lparr>items = replicate (nat K) z, front = 0, length_q = 0, bounded = True\<rparr>"
    by (auto simp add: NewBoundedQueue_def dest!: newBounded_Inr)
  from new_bounded_inv[OF assms(2)] have inv: "queue_inv q0" by simp
  have cap0: "go_cap (items q0) = K" using assms(1) by (simp add: q0 go_cap_def)
  have a: "\<exists>q. exec z (map OpPush xs) q0 = Inr (replicate (nat K) (Pushed None), q) \<and>
             Length q = K" if "length xs = nat K" for xs
  proof -
    from that assms(1) cap0 have "length_q q0 + int (length xs) \<le> go_cap (items q0)"
      by (simp add: q0)
    from pushes_room[OF inv this, of z] that assms(1) show ?thesis
      by (simp add: Length_def q0)
  qed
  have b: "Push z x q = Inr (Some ErrQueueFull, q)"
    if "exec z cs q0 = Inr (rs, q)" and "Length q = K" for cs rs q x
  proof -
    from exec_cap[OF inv that(1)] cap0 have "bounded q" and "go_cap (items q) = K"
      by (simp_all add: q0)
    with that(2) show ?thesis by (simp add: push_full Length_def)
  qed
  from a b show ?thesis by blast
qed

text \<open>The same statement at concrete queues of integers.\<close>

theorem bounded_overflow_witness:
  "(1::int) \<le> 2 \<and> NewBoundedQueue maxLen_int 0 2 = Inr ex_bounded_fresh \<and>
   (\<exists>q. exec 0 (map OpPush [5, 6]) ex_bounded_fresh = Inr ([Pushed None, Pushed None], q) \<and>
        Length q = 2 \<and> Push 0 7 q = Inr (Some ErrQueueFull, q))"
proof -
  have k: "(1::int) \<le> 2" by simp
  from bounded_overflow[OF k new_ex_bounded_fresh]
  have a: "\<forall>xs. length xs = nat 2 \<longrightarrow>
        (\<exists>q. exec 0 (map OpPush xs) ex_bounded_fresh =
               Inr (replicate (nat 2) (Pushed None), q) \<and> Length q = 2)"
    and b: "\<forall>cs rs q x. exec 0 cs ex_bounded_fresh = Inr (rs, q) \<longrightarrow> Length q = 2 \<longrightarrow>
        Push 0 x q = Inr (Some ErrQueueFull, q)"
    by blast+
  have "length [5, 6 :: int] = nat 2" by simp
  with a obtain q
    where "exec 0 (map OpPush [5, 6]) ex_bounded_fresh =
        Inr (replicate (nat 2) (Pushed None), q)"
      and l: "Length q = 2"
    by blast
  then have e: "exec 0 (map OpPush [5, 6]) ex_bounded_fresh =
      Inr ([Pushed None, Pushed None], q)"
    by (simp add: eval_nat_numeral)
  from b e l have "Push 0 7 q = Inr (Some ErrQueueFull, q)" by blast
  with k new_ex_bounded_fresh e l show ?thesis by blast
qed

text \<open>
  Claim C4 (empty queue). On any queue of length 0, \<^verbatim>\<open>Pop\<close> and \<^verbatim>\<open>Peek\<close> return the
  zero value of the element type together with \<^verbatim>\<open>ErrQueueEmpty\<close> and leave every field of
  the queue as it was. A queue fresh from either constructor (any capacity argument) has
  length 0, so both operations fail on it in this way.
\<close>

theorem empty_queue_contract:
  "(length_q q = 0 \<longrightarrow>
      Pop z q = Inr ((z, Some ErrQueueEmpty), q) \<and>
      Peek z q = Inr ((z, Some ErrQueueEmpty), q)) \<and>
   (NewBoundedQueue maxLen z c = Inr q0 \<or> NewUnboundedQueue maxLen z c = Inr q0 \<longrightarrow>
      Length q0 = 0 \<and>
      Pop z q0 = Inr ((z, Some ErrQueueEmpty), q0) \<and>
      Peek z q0 = Inr ((z, Some ErrQueueEmpty), q0))"
proof -
  have "length_q q0 = 0"
    if "NewBoundedQueue maxLen z c = Inr q0 \<or> NewUnboundedQueue maxLen z c = Inr q0"
    using that new_bounded_inv[of maxLen z c q0] new_unbounded_inv[of maxLen z c q0] by blast
  then show ?thesis
    using pop_empty[of q z] peek_empty[of q z] pop_empty[of q0 z] peek_empty[of q0 z]
    by (auto simp add: Length_def)
qed

text \<open>The same statement at concrete queues of integers.\<close>

theorem empty_queue_contract_witness:
  "length_q ex_wrapped_empty = 0 \<and>
   Pop 0 ex_wrapped_empty = Inr ((0, Some ErrQueueEmpty), ex_wrapped_empty) \<and>
   Peek 0 ex_wrapped_empty = Inr ((0, Some ErrQueueEmpty), ex_wrapped_empty) \<and>
   NewBoundedQueue maxLen_int 0 2 = Inr ex_bounded_fresh \<and>
   Length ex_bounded_fresh = 0 \<and>
   Pop 0 ex_bounded_fresh = Inr ((0, Some ErrQueueEmpty), ex_bounded_fresh) \<and>
   Peek 0 ex_bounded_fresh = Inr ((0, Some ErrQueueEmpty), ex_bounded_fresh)"
proof -
  have a: "length_q ex_wrapped_empty = 0" by (simp add: ex_wrapped_empty_def)
  from empty_queue_contract[of ex_wrapped_empty 0 maxLen_int 2 ex_bounded_fresh] a
    new_ex_bounded_fresh
  show ?thesis by blast
qed

text \<open>
  Claim C5 (length accounting). Starting from a queue fresh from either constructor, every
  sequence of operations runs to its end, and \<^verbatim>\<open>Length()\<close> afterwards is the number of
  pushes that returned no error minus the number of pops that returned no error, and is
  not negative.
\<close>

theorem length_accounting:
  assumes "NewBoundedQueue maxLen z c = Inr q0 \<or> NewUnboundedQueue maxLen z c = Inr q0"
  shows "\<exists>rs q. exec z cs q0 = Inr (rs, q) \<and>
     Length q = int (pushes_ok rs) - int (pops_ok rs) \<and> 0 \<le> Length q"
proof -
  from assms have "queue_inv q0 \<and> length_q q0 = 0"
    using new_bounded_inv[of maxLen z c q0] new_unbounded_inv[of maxLen z c q0] by blast
  then have inv: "queue_inv q0" and l0: "length_q q0 = 0" by simp_all
  from exec_total[OF inv] obtain rs q where e: "exec z cs q0 = Inr (rs, q)" by blast
  from exec_length[OF inv e] l0
  have "Length q = int (pushes_ok rs) - int (pops_ok rs)" by (simp add: Length_def)
  moreover from exec_inv[OF inv e] have "0 \<le> Length q"
    by (simp add: queue_inv_def Length_def)
  ultimately show ?thesis using e by blast
qed

text \<open>The same statement at concrete queues of integers.\<close>

theorem length_accounting_witness:
  "(NewBoundedQueue maxLen_int 0 2 = Inr ex_bounded_fresh \<or>
    NewUnboundedQueue maxLen_int 0 2 = Inr ex_bounded_fresh) \<and>
   (\<exists>rs q. exec 0 [OpPop, OpPush 1, OpPush 2, OpPush 3, OpPop, OpPeek] ex_bounded_fresh =
              Inr (rs, q) \<and>
      Length q = int (pushes_ok rs) - int (pops_ok rs) \<and> 0 \<le> Length q) \<and>
   exec 0 [OpPop, OpPush 1, OpPush 2, OpPush 3, OpPop, OpPeek] ex_bounded_fresh =
     Inr ([Popped 0 (Some ErrQueueEmpty), Pushed None, Pushed None,
           Pushed (Some ErrQueueFull), Popped 1 None, Peeked 2 None],
          \<lparr>items = [1, 2], front = 1, length_q = 1, bounded = True\<rparr>)"
proof -
  have n: "NewBoundedQueue maxLen_int 0 2 = Inr ex_bounded_fresh \<or>
      NewUnboundedQueue maxLen_int 0 2 = Inr ex_bounded_fresh"
    using new_ex_bounded_fresh by (rule disjI1)
  have e: "exec 0 [OpPop, OpPush 1, OpPush 2, OpPush 3, OpPop, OpPeek] ex_bounded_fresh =
     Inr ([Popped 0 (Some ErrQueueEmpty), Pushed None, Pushed None,
           Pushed (Some ErrQueueFull), Popped 1 None, Peeked 2 None],
          \<lparr>items = [1, 2], front = 1, length_q = 1, bounded = True\<rparr>)"
    by (simp add: eval_defs ex_defs eval_nat_numeral)
  from length_accounting[OF n, of "[OpPop, OpPush 1, OpPush 2, OpPush 3, OpPop, OpPeek]"] n e
  show ?thesis by blast
qed

text \<open>
  Claim C6 (state invariant). Every reachable state \<open>q\<close> has \<open>0 \<le> length \<le> capacity\<close>, and
  so has every state \<open>q'\<close> that a sequence of operations leads to from \<open>q\<close>. The capacity
  of \<open>q'\<close> is the capacity of \<open>q\<close> times a power of two, hence never smaller; a single
  operation leaves it as it is or doubles it; and for a bounded queue it does not change
  (and the queue stays bounded).
\<close>

theorem state_invariant:
  assumes "reachable z q" and "exec z cs q = Inr (rs, q')"
  shows "0 \<le> length_q q \<and> length_q q \<le> go_cap (items q) \<and>
     0 \<le> length_q q' \<and> length_q q' \<le> go_cap (items q') \<and>
     go_cap (items q) \<le> go_cap (items q') \<and>
     (\<exists>k. go_cap (items q') = 2 ^ k * go_cap (items q)) \<and>
     (length cs = 1 \<longrightarrow>
        go_cap (items q') = go_cap (items q) \<or> go_cap (items q') = 2 * go_cap (items q)) \<and>
     (bounded q \<longrightarrow> bounded q' \<and> go_cap (items q') = go_cap (items q))"
proof -
  from assms(1) have inv: "queue_inv q" by (rule reachable_inv)
  from exec_inv[OF inv assms(2)] have inv': "queue_inv q'" .
  from exec_cap[OF inv assms(2)] obtain k
    where b: "bounded q' = bounded q"
      and k: "go_cap (items q') = 2 ^ k * go_cap (items q)"
      and bc: "bounded q \<longrightarrow> go_cap (items q') = go_cap (items q)" by blast
  have "(1::int) \<le> 2 ^ k" by simp
  moreover from inv have "0 < go_cap (items q)" by (simp add: queue_inv_def)
  ultimately have mono: "go_cap (items q) \<le> go_cap (items q')"
    unfolding k by (simp add: mult_le_cancel_right1)
  have one: "go_cap (items q') = go_cap (items q) \<or> go_cap (items q') = 2 * go_cap (items q)"
    if "length cs = 1"
  proof -
    from that obtain c where cs: "cs = [c]" by (cases cs) auto
    with assms(2) obtain r where "apply_op z c q = Inr (r, q')"
      by (auto split: sum.splits)
    from apply_op_cap[OF inv this] show ?thesis by blast
  qed
  from inv inv' mono k one b bc show ?thesis
    by (auto simp add: queue_inv_def)
qed

text \<open>The same statement at concrete queues of integers.\<close>

theorem state_invariant_witness:
  "reachable 0 ex_full \<and> exec 0 [OpPush 4] ex_full = Inr ([Pushed None], ex_grown) \<and>
   0 \<le> length_q ex_grown \<and> length_q ex_grown \<le> go_cap (items ex_grown) \<and>
   go_cap (items ex_grown) = 2 * go_cap (items ex_full) \<and>
   reachable 0 ex_bounded_full \<and>
   exec 0 [OpPush 4, OpPop] ex_bounded_full =
     Inr ([Pushed (Some ErrQueueFull), Popped 2 None], ex_bounded_popped) \<and>
   bounded ex_bounded_full \<and> bounded ex_bounded_popped \<and>
   go_cap (items ex_bounded_popped) = go_cap (items ex_bounded_full) \<and>
   length_q ex_bounded_popped \<le> go_cap (items ex_bounded_popped)"
proof -
  have e2: "exec 0 [OpPush 4, OpPop] ex_bounded_full =
      Inr ([Pushed (Some ErrQueueFull), Popped 2 None], ex_bounded_popped)"
    by (simp add: eval_defs ex_defs)
  have c: "go_cap (items ex_grown) = 2 * go_cap (items ex_full)"
    by (simp add: ex_defs go_cap_def)
  have b: "bounded ex_bounded_full" by (simp add: ex_defs)
  from state_invariant[OF reach_ex_full push_ex_full]
    state_invariant[OF reach_ex_bounded_full e2]
    reach_ex_full push_ex_full reach_ex_bounded_full e2 c b
  show ?thesis by blast
qed

text \<open>
  Claim C7 (pushes on an unbounded queue). In every reachable state of an unbounded queue
  and for every item, \<^verbatim>\<open>Push\<close> returns no error (and does not panic).
\<close>

theorem unbounded_push_total:
  assumes "reachable z q" and "\<not> bounded q"
  shows "\<exists>q'. Push z x q = Inr (None, q')"
  using push_unbounded_ok[OF reachable_inv[OF assms(1)] assms(2)] .

text \<open>The same statement at concrete queues of integers.\<close>

theorem unbounded_push_total_witness:
  "reachable 0 ex_full \<and> \<not> bounded ex_full \<and> (\<exists>q'. Push 0 9 ex_full = Inr (None, q'))"
proof -
  have nb: "\<not> bounded ex_full" by (simp add: ex_full_def)
  from unbounded_push_total[OF reach_ex_full nb, of 9] reach_ex_full nb
  show ?thesis by blast
qed

text \<open>
  Claim C8 (Peek is idempotent and pure). On a reachable non-empty queue, any number \<open>n\<close>
  of consecutive \<^verbatim>\<open>Peek\<close> calls each return the same value without error, namely the front
  element (the oldest live element, the one \<^verbatim>\<open>Pop\<close> would return), and the queue after
  them is the queue before them: front, length and items are unchanged.
\<close>

theorem peek_idempotent:
  assumes "reachable z q" and "Length q \<noteq> 0"
  shows "exec z (replicate n OpPeek) q = Inr (replicate n (Peeked (hd (live q)) None), q) \<and>
     Peek z q = Inr ((hd (live q), None), q) \<and>
     (\<exists>q'. Pop z q = Inr ((hd (live q), None), q'))"
proof -
  from assms(1) have inv: "queue_inv q" by (rule reachable_inv)
  from assms(2) have ne: "length_q q \<noteq> 0" by (simp add: Length_def)
  from peeks_same[OF inv ne] peek_front[OF inv ne] pop_front[OF inv ne]
  show ?thesis by blast
qed

text \<open>The same statement at concrete queues of integers.\<close>

theorem peek_idempotent_witness:
  "reachable 0 ex_wrapped \<and> Length ex_wrapped \<noteq> 0 \<and>
   exec 0 (replicate 3 OpPeek) ex_wrapped =
     Inr (replicate 3 (Peeked (hd (live ex_wrapped)) None), ex_wrapped) \<and>
   Peek 0 ex_wrapped = Inr ((hd (live ex_wrapped), None), ex_wrapped) \<and>
   hd (live ex_wrapped) = 2"
proof -
  have ne: "Length ex_wrapped \<noteq> 0" by (simp add: Length_def ex_wrapped_def)
  have l: "hd (live ex_wrapped) = 2" by (simp add: live_ex_wrapped)
  from peek_idempotent[OF reach_ex_wrapped ne, of 3] reach_ex_wrapped ne l
  show ?thesis by blast
qed

text \<open>
  Claim C9 (default capacity). A queue that either constructor returns for the capacity
  argument \<open>c\<close> has a store of capacity 2 when \<open>c = 0\<close> and of capacity exactly \<open>c\<close> when
  \<open>c \<ge> 1\<close>. The constructor does return one when the allocation bound admits that capacity:
  for \<open>c = 0\<close> when \<open>2 \<le> maxLen\<close>, for \<open>c \<ge> 1\<close> when \<open>c \<le> maxLen\<close>. No reachable queue has
  capacity 0.
\<close>

theorem default_capacity:
  "(NewBoundedQueue maxLen z c = Inr q \<or> NewUnboundedQueue maxLen z c = Inr q \<longrightarrow>
      go_cap (items q) = (if c = 0 then 2 else c) \<and> 1 \<le> go_cap (items q)) \<and>
   (2 \<le> maxLen \<longrightarrow>
      (\<exists>q. NewBoundedQueue maxLen z 0 = Inr q \<and> go_cap (items q) = 2) \<and>
      (\<exists>q. NewUnboundedQueue maxLen z 0 = Inr q \<and> go_cap (items q) = 2)) \<and>
   (1 \<le> c \<and> c \<le> maxLen \<longrightarrow>
      (\<exists>q. NewBoundedQueue maxLen z c = Inr q \<and> go_cap (items q) = c) \<and>
      (\<exists>q. NewUnboundedQueue maxLen z c = Inr q \<and> go_cap (items q) = c)) \<and>
   (reachable z q' \<longrightarrow> go_cap (items q') \<noteq> 0)"
proof -
  have r: "reachable z q' \<longrightarrow> go_cap (items q') \<noteq> 0"
    using reachable_inv[of z q'] by (auto simp add: queue_inv_def)
  have h: "go_cap (items q) = (if c = 0 then 2 else c) \<and> 1 \<le> go_cap (items q)"
    if "NewBoundedQueue maxLen z c = Inr q \<or> NewUnboundedQueue maxLen z c = Inr q"
    using that
    by (auto simp add: NewBoundedQueue_def NewUnboundedQueue_def go_cap_def
        dest!: newBounded_Inr newUnbounded_Inr)
  have d: "(\<exists>q. NewBoundedQueue maxLen z 0 = Inr q \<and> go_cap (items q) = 2) \<and>
      (\<exists>q. NewUnboundedQueue maxLen z 0 = Inr q \<and> go_cap (items q) = 2)" if "2 \<le> maxLen"
    using that
    by (simp add: NewBoundedQueue_def NewUnboundedQueue_def newBounded_ok newUnbounded_ok
        go_cap_def)
  have e: "(\<exists>q. NewBoundedQueue maxLen z c = Inr q \<and> go_cap (items q) = c) \<and>
      (\<exists>q. NewUnboundedQueue maxLen z c = Inr q \<and> go_cap (items q) = c)"
    if "1 \<le> c \<and> c \<le> maxLen"
    using that
    by (simp add: NewBoundedQueue_def NewUnboundedQueue_def newBounded_ok newUnbounded_ok
        go_cap_def)
  from r h d e show ?thesis by blast
qed

text \<open>The same statement at concrete queues of integers.\<close>

theorem default_capacity_witness:
  "NewBoundedQueue maxLen_int 0 2 = Inr ex_bounded_fresh \<and>
   go_cap (items ex_bounded_fresh) = 2 \<and>
   2 \<le> maxLen_int \<and>
   (\<exists>q. NewBoundedQueue maxLen_int (0::int) 0 = Inr q \<and> go_cap (items q) = 2) \<and>
   (\<exists>q. NewUnboundedQueue maxLen_int (0::int) 0 = Inr q \<and> go_cap (items q) = 2) \<and>
   (1::int) \<le> 5 \<and> 5 \<le> maxLen_int \<and>
   (\<exists>q. NewBoundedQueue maxLen_int (0::int) 5 = Inr q \<and> go_cap (items q) = 5) \<and>
   (\<exists>q. NewUnboundedQueue maxLen_int (0::int) 5 = Inr q \<and> go_cap (items q) = 5) \<and>
   reachable 0 ex_wrapped \<and> go_cap (items ex_wrapped) \<noteq> 0"
proof -
  have k: "(1::int) \<le> 5" and m: "2 \<le> maxLen_int" "5 \<le> maxLen_int"
    by (simp_all add: maxLen_int_def)
  from default_capacity[of maxLen_int 0 2 ex_bounded_fresh ex_wrapped] new_ex_bounded_fresh
  have c2: "go_cap (items ex_bounded_fresh) = 2" by simp
  from default_capacity[of maxLen_int "0::int" 5 ex_bounded_fresh ex_wrapped] k m
    reach_ex_wrapped new_ex_bounded_fresh c2
  show ?thesis by blast
qed

text \<open>
  Claim C10 (construction precondition) says that construction succeeds for every
  capacity argument \<open>c \<ge> 0\<close>. It does not: \<^verbatim>\<open>make\<close> also panics when the capacity is
  more than the runtime allocates, as \<^verbatim>\<open>NewBoundedQueue[int](1<<62)\<close> and
  \<^verbatim>\<open>NewUnboundedQueue[int](1<<45+1)\<close> do.
\<close>

theorem construction_precondition_counterexample:
  "(0::int) \<le> 2 ^ 62 \<and>
   NewBoundedQueue maxLen_int (0::int) (2 ^ 62) = Inl MakesliceLenOutOfRange \<and>
   (0::int) \<le> 2 ^ 45 + 1 \<and>
   NewUnboundedQueue maxLen_int (0::int) (2 ^ 45 + 1) = Inl MakesliceLenOutOfRange"
  by (simp add: NewBoundedQueue_def NewUnboundedQueue_def newBoundedRingBufferQueue_def
      newUnboundedRingBufferQueue_def go_make_def maxLen_int_def)

text \<open>
  Claim C10 as amended: both \<^verbatim>\<open>NewBoundedQueue\<close> and \<^verbatim>\<open>NewUnboundedQueue\<close> return a
  queue exactly when the capacity they allocate (2 for the argument 0, the argument \<open>c\<close>
  otherwise) is neither negative nor above the allocation bound; for every \<open>c < 0\<close>, and
  for every \<open>c\<close> above the bound, both panic in \<^verbatim>\<open>make\<close>.
\<close>

theorem construction_precondition:
  "(0 \<le> c \<and> (if c = 0 then 2 else c) \<le> maxLen \<longrightarrow>
      (\<exists>q. NewBoundedQueue maxLen z c = Inr q) \<and>
      (\<exists>q. NewUnboundedQueue maxLen z c = Inr q)) \<and>
   (c < 0 \<or> maxLen < (if c = 0 then 2 else c) \<longrightarrow>
      NewBoundedQueue maxLen z c = Inl MakesliceLenOutOfRange \<and>
      NewUnboundedQueue maxLen z c = Inl MakesliceLenOutOfRange)"
  by (simp add: NewBoundedQueue_def NewUnboundedQueue_def newBounded_ok newUnbounded_ok
      newBounded_panic newUnbounded_panic)

text \<open>The same statement at concrete capacities.\<close>

theorem construction_precondition_witness:
  "(0::int) \<le> 3 \<and> 3 \<le> maxLen_int \<and>
   (\<exists>q. NewBoundedQueue maxLen_int (0::int) 3 = Inr q) \<and>
   (\<exists>q. NewUnboundedQueue maxLen_int (0::int) 3 = Inr q) \<and>
   (- 1::int) < 0 \<and>
   NewBoundedQueue maxLen_int (0::int) (- 1) = Inl MakesliceLenOutOfRange \<and>
   NewUnboundedQueue maxLen_int (0::int) (- 1) = Inl MakesliceLenOutOfRange \<and>
   maxLen_int < 2 ^ 62 \<and>
   NewBoundedQueue maxLen_int (0::int) (2 ^ 62) = Inl MakesliceLenOutOfRange \<and>
   NewUnboundedQueue maxLen_int (0::int) (2 ^ 62) = Inl MakesliceLenOutOfRange"
proof -
  have a: "(0::int) \<le> 3" "3 \<le> maxLen_int" and b: "(- 1::int) < 0"
    and c: "maxLen_int < 2 ^ 62"
    by (simp_all add: maxLen_int_def)
  from construction_precondition[of 3 maxLen_int "0::int"]
    construction_precondition[of "- 1" maxLen_int "0::int"]
    construction_precondition[of "2 ^ 62" maxLen_int "0::int"] a b c
  show ?thesis by simp
qed

end
